theory Spec2Isabelle
  imports Main "HOL-Library.Char_ord" "HOL-Library.List_Lexorder" "HOL-Library.Multiset"
begin

section \<open>Data model\<close>

text \<open>
  Items returned by the remote API are read through \<^verbatim>\<open>item.get(key)\<close> only, on the keys
  below; a missing key and a JSON \<^verbatim>\<open>null\<close> both read as \<open>None\<close>.  Strings are ASCII byte
  strings, compared lexicographically by character code as Python compares \<^verbatim>\<open>str\<close>.
  The field \<open>source_concept\<close> is the key \<^verbatim>\<open>_source_concept\<close> that the recall module writes.
\<close>

record item =
  item_id :: "string option"
  cited_by_count :: "int option"
  publication_date :: "string option"
  publication_year :: "int option"
  display_name :: "string option"
  source_concept :: "string option"

section \<open>search.py: the in-memory sort of the accumulated sample\<close>

text \<open>
  \<^verbatim>\<open>list.sort(key=..., reverse=...)\<close> is stable in both directions: with
  \<^verbatim>\<open>reverse=True\<close> the list is reversed, sorted stably and reversed again.
\<close>

definition py_sort :: "('a \<Rightarrow> 'k::linorder) \<Rightarrow> bool \<Rightarrow> 'a list \<Rightarrow> 'a list" where
  "py_sort key reverse xs =
     (if reverse then rev (sort_key key (rev xs)) else sort_key key xs)"

text \<open>\<^verbatim>\<open>lambda x: x.get('cited_by_count', 0) or 0\<close>\<close>

definition cited_key :: "item \<Rightarrow> int" where
  "cited_key x = (case cited_by_count x of None \<Rightarrow> 0 | Some c \<Rightarrow> c)"

text \<open>\<^verbatim>\<open>if d:\<close> on an optional string: neither \<^verbatim>\<open>None\<close> nor the empty string.\<close>

definition has_date :: "item \<Rightarrow> bool" where
  "has_date x = (case publication_date x of None \<Rightarrow> False | Some d \<Rightarrow> d \<noteq> [])"

text \<open>
  \<^verbatim>\<open>date_key\<close> (search.py, lines 100 to 105).  The year is bound to \<open>y\<close> and not used.
\<close>

definition date_key :: "bool \<Rightarrow> item \<Rightarrow> string" where
  "date_key reverse x =
     (case publication_date x of
        Some d \<Rightarrow>
          if d \<noteq> [] then d
          else (let y = publication_year x in if reverse then ''9999'' else ''0000'')
      | None \<Rightarrow> (let y = publication_year x in if reverse then ''9999'' else ''0000''))"

text \<open>Lines 94 to 106 of search.py: the sort applied to \<^verbatim>\<open>all_results\<close>.\<close>

definition sort_sample :: "string option \<Rightarrow> string \<Rightarrow> item list \<Rightarrow> item list" where
  "sort_sample sort_arg order all_results =
     (let reverse = (order = ''desc'') in
      if sort_arg = Some ''cited_by_count'' then py_sort cited_key reverse all_results
      else if sort_arg = Some ''publication_date'' then py_sort (date_key reverse) reverse all_results
      else all_results)"

text \<open>The publication date of an item that has one.\<close>

definition date_of :: "item \<Rightarrow> string" where
  "date_of x = (case publication_date x of None \<Rightarrow> [] | Some d \<Rightarrow> d)"

section \<open>search.py: requests, the accumulation loop and the page slice\<close>

text \<open>
  A query parameter value, a request (the URL and the \<^verbatim>\<open>params\<close> dictionary in insertion
  order), the decoded JSON body of a response, and the exceptions the code can meet.
  In a payload \<open>results = None\<close> means that the key \<^verbatim>\<open>results\<close> is absent.
\<close>

datatype pval = PStr string | PInt int

record request =
  url :: string
  params :: "(string \<times> pval) list"

record payload =
  results :: "item list option"
  meta_count :: "int option"
  error :: "string option"

datatype exn =
    ValueError string
  | UpstreamError string
  | DecodeError string
  | UnboundLocalError string

fun str_exn :: "exn \<Rightarrow> string" where
  "str_exn (ValueError m) = m"
| "str_exn (UpstreamError m) = m"
| "str_exn (DecodeError m) = m"
| "str_exn (UnboundLocalError m) = m"

text \<open>
  The remote API: \<^verbatim>\<open>requests.get\<close>, \<^verbatim>\<open>raise_for_status\<close> and \<^verbatim>\<open>response.json()\<close> together.
  The answer may depend on the request and on how many requests were issued before it,
  so the same request may be answered differently at different times.
\<close>

type_synonym upstream = "nat \<Rightarrow> request \<Rightarrow> exn + payload"

text \<open>\<^verbatim>\<open>if sort:\<close> on an optional string.\<close>

definition truthy :: "string option \<Rightarrow> bool" where
  "truthy s = (case s of None \<Rightarrow> False | Some v \<Rightarrow> v \<noteq> [])"

definition API_BASE :: string where
  "API_BASE = ''https://acemap.info/api/v1''"

definition ENDPOINTS :: "(string \<times> string) list" where
  "ENDPOINTS =
     [(''work'', API_BASE @ ''/work/search''),
      (''author'', API_BASE @ ''/author/search''),
      (''institution'', API_BASE @ ''/institution/search'')]"

definition build_params ::
  "string \<Rightarrow> string \<Rightarrow> int \<Rightarrow> int \<Rightarrow> string \<Rightarrow> string option \<Rightarrow> (string \<times> pval) list" where
  "build_params search_type keyword page sz order sort_arg =
     (let params = [(''keyword'', PStr keyword), (''page'', PInt page), (''size'', PInt sz)] in
      if search_type = ''work'' then
        (let params = params @ [(''order'', PStr order)] in
         case sort_arg of
           None \<Rightarrow> params
         | Some s \<Rightarrow> if s \<noteq> [] then params @ [(''sort'', PStr s)] else params)
      else params)"

text \<open>Lines 54 and 55 of search.py.\<close>

definition target_count :: "int \<Rightarrow> int \<Rightarrow> int" where
  "target_count page sz =
     (let target = max (page * sz) 200 in if target > 500 then 500 else target)"

definition max_page_size :: int where
  "max_page_size = 100"

text \<open>\<^verbatim>\<open>data.get("results", [])\<close>\<close>

definition get_results :: "payload \<Rightarrow> item list" where
  "get_results data = (case results data of None \<Rightarrow> [] | Some r \<Rightarrow> r)"

text \<open>
  The \<^verbatim>\<open>while\<close> loop of lines 63 to 87.  The state is \<^verbatim>\<open>current_page\<close>,
  \<^verbatim>\<open>all_results\<close> and the last decoded body \<^verbatim>\<open>data\<close> (unbound before the first
  request); \<open>log\<close> records the requests issued so far.  An exception leaves the loop
  with the log and the exception; the items gathered so far are dropped.
\<close>

function accumulate ::
  "upstream \<Rightarrow> nat \<Rightarrow> string \<Rightarrow> string \<Rightarrow> string \<Rightarrow> int \<Rightarrow> int \<Rightarrow> item list
     \<Rightarrow> request list \<Rightarrow> payload option
     \<Rightarrow> request list \<times> (exn + item list \<times> payload option)" where
  "accumulate u n endpoint search_type keyword target current_page all_results log data =
     (if int (length all_results) < target then
        (let req = \<lparr>url = endpoint,
                     params = build_params search_type keyword current_page max_page_size
                                ''desc'' None\<rparr>
         in case u (n + length log) req of
              Inl e \<Rightarrow> (log @ [req], Inl e)
            | Inr d \<Rightarrow>
                (let page_results = get_results d in
                 if page_results = [] then (log @ [req], Inr (all_results, Some d))
                 else if int (length page_results) < max_page_size
                   then (log @ [req], Inr (all_results @ page_results, Some d))
                 else accumulate u n endpoint search_type keyword target (current_page + 1)
                        (all_results @ page_results) (log @ [req]) (Some d)))
      else (log, Inr (all_results, data)))"
  by pat_completeness auto
termination
  by (relation "measure (\<lambda>(u, n, endpoint, search_type, keyword, target, current_page,
                            all_results, log, data). nat (target - int (length all_results)))")
     (auto simp: max_page_size_def)

declare accumulate.simps [simp del]

text \<open>The request that the loop builds on line 66 for the page \<open>current_page\<close>.\<close>

definition ranked_request :: "string \<Rightarrow> string \<Rightarrow> string \<Rightarrow> int \<Rightarrow> request" where
  "ranked_request endpoint search_type keyword current_page =
     \<lparr>url = endpoint,
      params = build_params search_type keyword current_page max_page_size ''desc'' None\<rparr>"

text \<open>
  \<^verbatim>\<open>xs[start:stop]\<close>: a negative index counts from the end, and both indices are
  clamped to the list.
\<close>

definition py_slice :: "'a list \<Rightarrow> int \<Rightarrow> int \<Rightarrow> 'a list" where
  "py_slice xs start stop =
     (let len = int (length xs);
          lo = (if start < 0 then max (start + len) 0 else min start len);
          hi = (if stop < 0 then max (stop + len) 0 else min stop len)
      in take (nat (hi - lo)) (drop (nat lo) xs))"

text \<open>
  \<^verbatim>\<open>search_acemap\<close>.  The result is the list of requests issued and either the exception
  raised or the dictionary returned.  The text of the \<^verbatim>\<open>ValueError\<close> message is
  abbreviated.
\<close>

definition search_acemap ::
  "upstream \<Rightarrow> nat \<Rightarrow> string \<Rightarrow> string \<Rightarrow> int \<Rightarrow> int \<Rightarrow> string \<Rightarrow> string option
     \<Rightarrow> request list \<times> (exn + payload)" where
  "search_acemap u n search_type keyword page sz order sort_arg =
     (case map_of ENDPOINTS search_type of
        None \<Rightarrow> ([], Inl (ValueError (''invalid type '' @ search_type)))
      | Some endpoint \<Rightarrow>
          if search_type = ''work'' \<and> truthy sort_arg then
            (let target = target_count page sz in
             case accumulate u n endpoint search_type keyword target 1 [] [] None of
               (log, Inl e) \<Rightarrow> (log, Inl e)
             | (log, Inr (all_results, None)) \<Rightarrow> (log, Inl (UnboundLocalError ''data''))
             | (log, Inr (all_results, Some final_data)) \<Rightarrow>
                 (let ranked = sort_sample sort_arg order all_results;
                      start_idx = (page - 1) * sz;
                      end_idx = start_idx + sz
                  in (log, Inr (final_data\<lparr>results := Some (py_slice ranked start_idx end_idx)\<rparr>))))
          else
            (let req = \<lparr>url = endpoint,
                        params = build_params search_type keyword page sz order sort_arg\<rparr>
             in ([req], u n req)))"

text \<open>
  \<^verbatim>\<open>search_all\<close>: the three channels in order, each inside its own
  \<^verbatim>\<open>try\<close>/\<^verbatim>\<open>except Exception\<close>.
\<close>

record envelope =
  work :: payload
  author :: payload
  institution :: payload

text \<open>\<^verbatim>\<open>{"error": str(e), "results": []}\<close>\<close>

definition stand_in :: "exn \<Rightarrow> payload" where
  "stand_in e = \<lparr>results = Some [], meta_count = None, error = Some (str_exn e)\<rparr>"

definition channel :: "exn + payload \<Rightarrow> payload" where
  "channel r = (case r of Inl e \<Rightarrow> stand_in e | Inr p \<Rightarrow> p)"

definition search_all ::
  "upstream \<Rightarrow> nat \<Rightarrow> string \<Rightarrow> string option \<Rightarrow> string \<Rightarrow> request list \<times> envelope" where
  "search_all u n keyword sort_arg order =
     (let (log_w, r_w) = search_acemap u n ''work'' keyword 1 5 order sort_arg;
          (log_a, r_a) = search_acemap u (n + length log_w) ''author'' keyword 1 3 ''desc'' None;
          (log_i, r_i) = search_acemap u (n + length log_w + length log_a) ''institution''
                           keyword 1 3 ''desc'' None
      in (log_w @ log_a @ log_i,
          \<lparr>work = channel r_w, author = channel r_a, institution = channel r_i\<rparr>))"

section \<open>recall.py: the knowledge-graph neighbour index\<close>

record triple =
  subject :: string
  relation :: string
  object :: string
  paperid :: string

text \<open>The table \<^verbatim>\<open>self.df\<close>: \<open>None\<close> before loading, otherwise its rows in order.\<close>

record KGManager =
  df :: "triple list option"

text \<open>\<^verbatim>\<open>str.lower\<close>, \<^verbatim>\<open>str.strip\<close> and the substring test, on ASCII strings.\<close>

definition lower_char :: "char \<Rightarrow> char" where
  "lower_char c =
     (if CHR ''A'' \<le> c \<and> c \<le> CHR ''Z'' then char_of (of_char c + (32::nat)) else c)"

definition lower :: "string \<Rightarrow> string" where
  "lower s = map lower_char s"

definition is_space :: "char \<Rightarrow> bool" where
  "is_space c =
     (c = CHR '' '' \<or> (CHR 0x09 \<le> c \<and> c \<le> CHR 0x0D) \<or> (CHR 0x1C \<le> c \<and> c \<le> CHR 0x1F))"

definition strip :: "string \<Rightarrow> string" where
  "strip s = rev (dropWhile is_space (rev (dropWhile is_space s)))"

fun starts_with :: "string \<Rightarrow> string \<Rightarrow> bool" where
  "starts_with s [] = True"
| "starts_with [] (p # ps) = False"
| "starts_with (c # cs) (p # ps) = (c = p \<and> starts_with cs ps)"

fun contains :: "string \<Rightarrow> string \<Rightarrow> bool" where
  "contains [] p = (p = [])"
| "contains (c # cs) p = (starts_with (c # cs) p \<or> contains cs p)"

text \<open>
  \<^verbatim>\<open>collections.Counter\<close> as the list of its (element, count) pairs in insertion
  order, which is the order of first occurrence.
\<close>

fun counter_add :: "'a \<Rightarrow> ('a \<times> nat) list \<Rightarrow> ('a \<times> nat) list" where
  "counter_add x [] = [(x, 1)]"
| "counter_add x ((y, c) # rest) =
     (if x = y then (y, Suc c) # rest else (y, c) # counter_add x rest)"

definition Counter :: "'a list \<Rightarrow> ('a \<times> nat) list" where
  "Counter xs = foldl (\<lambda>counter x. counter_add x counter) [] xs"

text \<open>\<^verbatim>\<open>if keyword in counter: del counter[keyword]\<close>\<close>

definition counter_del :: "'a \<Rightarrow> ('a \<times> nat) list \<Rightarrow> ('a \<times> nat) list" where
  "counter_del k counter =
     (if k \<in> set (map fst counter) then filter (\<lambda>entry. fst entry \<noteq> k) counter else counter)"

text \<open>
  \<^verbatim>\<open>Counter.most_common(n)\<close>: the first \<open>n\<close> entries of the entries sorted by count,
  largest first, entries of equal count in insertion order; nothing for \<open>n \<le> 0\<close>.
\<close>

definition most_common :: "int \<Rightarrow> ('a \<times> nat) list \<Rightarrow> ('a \<times> nat) list" where
  "most_common n counter = take (nat n) (py_sort snd True counter)"

definition find_related_concepts :: "KGManager \<Rightarrow> string \<Rightarrow> int \<Rightarrow> string list" where
  "find_related_concepts kg keyword top_k =
     (case df kg of
        None \<Rightarrow> []
      | Some rows \<Rightarrow>
          if rows = [] then []
          else
            (let keyword = strip (lower keyword);
                 related_from_sub = map object (filter (\<lambda>r. lower (subject r) = keyword) rows);
                 related_from_obj = map subject (filter (\<lambda>r. lower (object r) = keyword) rows);
                 all_related = related_from_sub @ related_from_obj;
                 all_related =
                   (if int (length all_related) < top_k then
                      (let related_from_sub_c =
                             map object (filter (\<lambda>r. contains (lower (subject r)) keyword) rows);
                           related_from_obj_c =
                             map subject (filter (\<lambda>r. contains (lower (object r)) keyword) rows)
                       in all_related @ (related_from_sub_c @ related_from_obj_c))
                    else all_related);
                 counter = counter_del keyword (Counter all_related)
             in map fst (most_common top_k counter)))"

section \<open>recall.py: the recall aggregator\<close>

record recall_result =
  original_keyword :: string
  related_concepts :: "string list"
  recall_results :: "item list"
  total_count :: nat

text \<open>
  The loop over the related concepts (lines 112 to 124): a failed search is skipped, the
  items of a successful one are tagged with the concept and appended.
\<close>

fun expand_concepts ::
  "upstream \<Rightarrow> nat \<Rightarrow> string option \<Rightarrow> string \<Rightarrow> string list \<Rightarrow> item list
     \<Rightarrow> request list \<times> item list" where
  "expand_concepts u n sort_arg order [] expanded_results = ([], expanded_results)"
| "expand_concepts u n sort_arg order (concept # concepts) expanded_results =
     (let (log_c, res) = search_acemap u n ''work'' concept 1 2 order sort_arg;
          expanded_results =
            (case res of
               Inl e \<Rightarrow> expanded_results
             | Inr p \<Rightarrow>
                 expanded_results @
                   map (\<lambda>it. it\<lparr>source_concept := Some concept\<rparr>) (get_results p));
          (log_rest, out) =
            expand_concepts u (n + length log_c) sort_arg order concepts expanded_results
      in (log_c @ log_rest, out))"

text \<open>The de-duplication loop of lines 133 to 136.\<close>

fun merge_unseen :: "item list \<Rightarrow> string option set \<Rightarrow> item list \<Rightarrow> item list" where
  "merge_unseen final_list seen_ids [] = final_list"
| "merge_unseen final_list seen_ids (it # rest) =
     (if item_id it \<notin> seen_ids
      then merge_unseen (final_list @ [it]) (insert (item_id it) seen_ids) rest
      else merge_unseen final_list seen_ids rest)"

text \<open>The result of the search for the original keyword, \<^verbatim>\<open>{"results": []}\<close> when it fails.\<close>

definition original_search ::
  "upstream \<Rightarrow> nat \<Rightarrow> string \<Rightarrow> string option \<Rightarrow> string \<Rightarrow> request list \<times> payload" where
  "original_search u n keyword sort_arg order =
     (let (log_o, res) = search_acemap u n ''work'' keyword 1 5 order sort_arg
      in (log_o,
          case res of
            Inl e \<Rightarrow> \<lparr>results = Some [], meta_count = None, error = None\<rparr>
          | Inr p \<Rightarrow> p))"

definition search_with_recall ::
  "upstream \<Rightarrow> nat \<Rightarrow> string \<Rightarrow> KGManager \<Rightarrow> string option \<Rightarrow> string
     \<Rightarrow> request list \<times> recall_result" where
  "search_with_recall u n keyword kg_manager sort_arg order =
     (let (log_o, original_results) = original_search u n keyword sort_arg order;
          concepts = find_related_concepts kg_manager keyword 3;
          (log_e, expanded_results) =
            expand_concepts u (n + length log_o) sort_arg order concepts [];
          final_list = get_results original_results;
          seen_ids = set (map item_id final_list);
          final_list = merge_unseen final_list seen_ids expanded_results
      in (log_o @ log_e,
          \<lparr>original_keyword = keyword, related_concepts = concepts,
           recall_results = final_list, total_count = length final_list\<rparr>))"

text \<open>
  Two intermediate values of \<^verbatim>\<open>search_with_recall\<close>: the results for the original
  keyword (\<^verbatim>\<open>original_results.get("results", [])\<close>) and \<^verbatim>\<open>expanded_results\<close>, the
  tagged items of the related concepts before de-duplication.
\<close>

definition original_items ::
  "upstream \<Rightarrow> nat \<Rightarrow> string \<Rightarrow> string option \<Rightarrow> string \<Rightarrow> item list" where
  "original_items u n keyword sort_arg order =
     get_results (snd (original_search u n keyword sort_arg order))"

definition neighbour_items ::
  "upstream \<Rightarrow> nat \<Rightarrow> string \<Rightarrow> KGManager \<Rightarrow> string option \<Rightarrow> string \<Rightarrow> item list" where
  "neighbour_items u n keyword kg_manager sort_arg order =
     snd (expand_concepts u (n + length (fst (original_search u n keyword sort_arg order)))
            sort_arg order (find_related_concepts kg_manager keyword 3) [])"

text \<open>
  app.py, lines 182 to 195: the caller sorts the list that \<^verbatim>\<open>search_with_recall\<close>
  returned, with a \<^verbatim>\<open>date_key\<close> of its own that reads as the one of search.py.
\<close>

definition enhanced_work_items :: "recall_result \<Rightarrow> string option \<Rightarrow> string \<Rightarrow> item list" where
  "enhanced_work_items recall_data sort_param order_param =
     (let items = recall_results recall_data in
      if truthy sort_param then
        (let reverse = (order_param = ''desc'') in
         if sort_param = Some ''cited_by_count'' then py_sort cited_key reverse items
         else if sort_param = Some ''publication_date'' then
           py_sort (date_key reverse) reverse items
         else items)
      else items)"

section \<open>intent.py: the intent parser\<close>

record intent =
  original_query :: string
  intent_keyword :: string
  intent_sort :: "string option"
  intent_type :: "string option"

definition time_keywords :: "string list" where
  "time_keywords =
     [''recent'', ''latest'', ''new'', ''newest'', ''current'', ''latest research'',
      ''recent papers'']"

definition citation_keywords :: "string list" where
  "citation_keywords =
     [''popular'', ''cited'', ''best'', ''top'', ''famous'', ''impactful'', ''highly cited'',
      ''most cited'']"

definition author_keywords :: "string list" where
  "author_keywords =
     [''author'', ''researcher'', ''scientist'', ''who wrote'', ''written by'', ''people'']"

definition inst_keywords :: "string list" where
  "inst_keywords =
     [''institution'', ''university'', ''lab'', ''laboratory'', ''center'', ''college'',
      ''school'']"

definition stop_phrases :: "string list" where
  "stop_phrases =
     [''research on'', ''papers about'', ''results for'', ''show me'', ''find'', ''search for'',
      ''articles on'', ''documents about'', ''information on'', ''tell me about'', ''papers on'',
      ''results of'', ''list of'']"

text \<open>
  The regular expressions of \<^verbatim>\<open>parse\<close>, on ASCII strings.  \<open>match_ci p s\<close>: the escaped
  literal \<open>p\<close> matches at the start of \<open>s\<close> under \<^verbatim>\<open>re.IGNORECASE\<close>.
\<close>

fun match_ci :: "string \<Rightarrow> string \<Rightarrow> bool" where
  "match_ci [] s = True"
| "match_ci (p # ps) [] = False"
| "match_ci (p # ps) (c # cs) = (lower_char p = lower_char c \<and> match_ci ps cs)"

text \<open>
  \<^verbatim>\<open>re.compile(re.escape(phrase), re.IGNORECASE).sub("", s)\<close>: the matches are found
  from left to right and do not overlap.
\<close>

function sub_phrase :: "string \<Rightarrow> string \<Rightarrow> string" where
  "sub_phrase phrase s =
     (case s of
        [] \<Rightarrow> []
      | c # cs \<Rightarrow>
          if phrase \<noteq> [] \<and> match_ci phrase s then sub_phrase phrase (drop (length phrase) s)
          else c # sub_phrase phrase cs)"
  by pat_completeness auto
termination
  by (relation "measure (\<lambda>(phrase, s). length s)") auto

text \<open>\<^verbatim>\<open>\w\<close> and the word boundary \<^verbatim>\<open>\b\<close> between two neighbouring positions.\<close>

definition is_word_char :: "char \<Rightarrow> bool" where
  "is_word_char c =
     ((CHR ''a'' \<le> c \<and> c \<le> CHR ''z'') \<or> (CHR ''A'' \<le> c \<and> c \<le> CHR ''Z'') \<or>
      (CHR ''0'' \<le> c \<and> c \<le> CHR ''9'') \<or> c = CHR ''_'')"

definition is_word_opt :: "char option \<Rightarrow> bool" where
  "is_word_opt c = (case c of None \<Rightarrow> False | Some x \<Rightarrow> is_word_char x)"

definition word_boundary :: "char option \<Rightarrow> char option \<Rightarrow> bool" where
  "word_boundary before after = (is_word_opt before \<noteq> is_word_opt after)"

definition char_at :: "string \<Rightarrow> nat \<Rightarrow> char option" where
  "char_at s i = (if i < length s then Some (s ! i) else None)"

text \<open>
  \<^verbatim>\<open>re.compile(r'\b' + re.escape(word) + r'\b', re.IGNORECASE).sub("", s)\<close>;
  \<open>before\<close> is the character in front of \<open>s\<close> in the whole string.
\<close>

function sub_word :: "string \<Rightarrow> char option \<Rightarrow> string \<Rightarrow> string" where
  "sub_word word before s =
     (case s of
        [] \<Rightarrow> []
      | c # cs \<Rightarrow>
          if word \<noteq> [] \<and> word_boundary before (Some c) \<and> match_ci word s \<and>
             word_boundary (char_at s (length word - 1)) (char_at s (length word))
          then sub_word word (char_at s (length word - 1)) (drop (length word) s)
          else c # sub_word word (Some c) cs)"
  by pat_completeness auto
termination
  by (relation "measure (\<lambda>(word, before, s). length s)") auto

text \<open>\<^verbatim>\<open>re.sub(r'[^\w\s]', ' ', s)\<close>, \<^verbatim>\<open>s.split()\<close> and \<^verbatim>\<open>" ".join(words)\<close>.\<close>

definition sub_punct :: "string \<Rightarrow> string" where
  "sub_punct s = map (\<lambda>c. if is_word_char c \<or> is_space c then c else CHR '' '') s"

fun split_from :: "string \<Rightarrow> string \<Rightarrow> string list" where
  "split_from w [] = (if w = [] then [] else [w])"
| "split_from w (c # cs) =
     (if is_space c then (if w = [] then split_from [] cs else w # split_from [] cs)
      else split_from (w @ [c]) cs)"

definition split_ws :: "string \<Rightarrow> string list" where
  "split_ws s = split_from [] s"

fun join_space :: "string list \<Rightarrow> string" where
  "join_space [] = []"
| "join_space [w] = w"
| "join_space (w # v # ws) = w @ '' '' @ join_space (v # ws)"

text \<open>\<^verbatim>\<open>any(k in query_lower for k in keywords)\<close>\<close>

definition any_in :: "string list \<Rightarrow> string \<Rightarrow> bool" where
  "any_in keywords query_lower = list_ex (\<lambda>k. contains query_lower k) keywords"

text \<open>Step 3 of \<^verbatim>\<open>parse\<close> (lines 63 to 89): the cleaned keyword before the fallback.\<close>

definition clean_keyword :: "string \<Rightarrow> string option \<Rightarrow> string option \<Rightarrow> string" where
  "clean_keyword query sort_intent type_intent =
     (let clean_query = foldl (\<lambda>q phrase. sub_phrase phrase q) query stop_phrases;
          words_to_remove =
            (if sort_intent = Some ''date'' then time_keywords else []) @
            (if sort_intent = Some ''citation'' then citation_keywords else []) @
            (if type_intent = Some ''author'' then author_keywords else []) @
            (if type_intent = Some ''institution'' then inst_keywords else []);
          clean_query = foldl (\<lambda>q word. sub_word word None q) clean_query words_to_remove;
          clean_query = sub_punct clean_query
      in join_space (split_ws clean_query))"

definition sort_intent_of :: "string \<Rightarrow> string option" where
  "sort_intent_of query_lower =
     (if any_in citation_keywords query_lower then Some ''citation''
      else if any_in time_keywords query_lower then Some ''date''
      else None)"

definition type_intent_of :: "string \<Rightarrow> string option" where
  "type_intent_of query_lower =
     (if any_in author_keywords query_lower then Some ''author''
      else if any_in inst_keywords query_lower then Some ''institution''
      else None)"

definition parse :: "string \<Rightarrow> intent" where
  "parse query =
     (if query = [] then
        \<lparr>original_query = [], intent_keyword = [], intent_sort = None, intent_type = None\<rparr>
      else
        (let query_lower = lower query;
             sort_intent = sort_intent_of query_lower;
             type_intent = type_intent_of query_lower;
             cleaned = clean_keyword query sort_intent type_intent
         in \<lparr>original_query = query,
             intent_keyword = (if cleaned = [] then query else cleaned),
             intent_sort = sort_intent,
             intent_type = type_intent\<rparr>))"

section \<open>Example inputs\<close>

definition ex_dated :: item where
  "ex_dated =
     \<lparr>item_id = Some ''w1'', cited_by_count = Some 5, publication_date = Some ''2020-01-01'',
      publication_year = Some 2020, display_name = Some ''Basalt flows'', source_concept = None\<rparr>"

definition ex_undated :: item where
  "ex_undated =
     \<lparr>item_id = Some ''w2'', cited_by_count = Some 10, publication_date = None,
      publication_year = Some 2021, display_name = Some ''Granite domes'', source_concept = None\<rparr>"

definition ex_undated_old :: item where
  "ex_undated_old =
     \<lparr>item_id = Some ''w3'', cited_by_count = None, publication_date = None,
      publication_year = Some 1999, display_name = Some ''Shale beds'', source_concept = None\<rparr>"

definition ex_kg_rock :: KGManager where
  "ex_kg_rock =
     \<lparr>df = Some
        [\<lparr>subject = ''rock'', relation = ''relates_to'', object = ''plate tectonics'',
          paperid = ''p1''\<rparr>,
         \<lparr>subject = ''mineral'', relation = ''relates_to'', object = ''rock'',
          paperid = ''p2''\<rparr>]\<rparr>"

definition ex_kg_capital :: KGManager where
  "ex_kg_capital =
     \<lparr>df = Some
        [\<lparr>subject = ''Rock'', relation = ''relates_to'', object = ''rock formation'',
          paperid = ''p1''\<rparr>]\<rparr>"

text \<open>An upstream with no results, and one that always answers with a full page.\<close>

definition ex_upstream_empty :: upstream where
  "ex_upstream_empty = (\<lambda>k q. Inr \<lparr>results = Some [], meta_count = Some 0, error = None\<rparr>)"

definition ex_upstream_full :: upstream where
  "ex_upstream_full =
     (\<lambda>k q. Inr \<lparr>results = Some (replicate 100 ex_dated), meta_count = Some 1000,
                    error = None\<rparr>)"

text \<open>
  An upstream that knows two keywords and fails on every other one; the two result
  lists share the item \<open>ex_undated\<close>.
\<close>

definition ex_highly_cited :: item where
  "ex_highly_cited =
     \<lparr>item_id = Some ''w4'', cited_by_count = Some 50, publication_date = Some ''2015-06-30'',
      publication_year = Some 2015, display_name = Some ''Subduction zones'',
      source_concept = None\<rparr>"

definition ex_upstream_topics :: upstream where
  "ex_upstream_topics =
     (\<lambda>k q.
        if map_of (params q) ''keyword'' = Some (PStr ''rock'') then
          Inr \<lparr>results = Some [ex_dated, ex_undated], meta_count = Some 2, error = None\<rparr>
        else if map_of (params q) ''keyword'' = Some (PStr ''plate tectonics'') then
          Inr \<lparr>results = Some [ex_undated, ex_highly_cited], meta_count = Some 2, error = None\<rparr>
        else Inl (UpstreamError ''503 Server Error''))"

text \<open>An upstream whose answer lists the same work twice.\<close>

definition ex_reprint :: item where
  "ex_reprint = ex_dated\<lparr>display_name := Some ''Basalt flows (reprint)''\<rparr>"

definition ex_upstream_twice :: upstream where
  "ex_upstream_twice =
     (\<lambda>k q. Inr \<lparr>results = Some [ex_dated, ex_reprint], meta_count = Some 2, error = None\<rparr>)"

text \<open>An upstream whose institution endpoint is down.\<close>

definition ex_upstream_inst_down :: upstream where
  "ex_upstream_inst_down =
     (\<lambda>k q.
        if url q = API_BASE @ ''/institution/search'' then Inl (UpstreamError ''Read timed out'')
        else Inr \<lparr>results = Some [ex_dated], meta_count = Some 1, error = None\<rparr>)"

section \<open>Properties of the sort\<close>

lemma py_sort_stable:
  "filter (\<lambda>y. key y = k) (py_sort key reverse xs) = filter (\<lambda>y. key y = k) xs"
proof (cases reverse)
  case True
  have "filter (\<lambda>y. key y = k) (rev (sort_key key (rev xs)))
      = rev (filter (\<lambda>y. key y = k) (sort_key key (rev xs)))"
    by (simp add: rev_filter)
  also have "\<dots> = rev (filter (\<lambda>y. key y = k) (rev xs))"
    by (simp only: sort_key_stable)
  also have "\<dots> = filter (\<lambda>y. key y = k) xs"
    by (simp add: rev_filter)
  finally show ?thesis using True by (simp add: py_sort_def)
next
  case False
  then show ?thesis by (simp add: py_sort_def sort_key_stable)
qed

lemma mset_py_sort: "mset (py_sort key reverse xs) = mset xs"
  by (simp add: py_sort_def)

lemma set_py_sort: "set (py_sort key reverse xs) = set xs"
  by (simp add: py_sort_def)

lemma length_py_sort: "length (py_sort key reverse xs) = length xs"
  by (simp add: py_sort_def)

lemma py_sort_ascending: "sorted (map key (py_sort key False xs))"
  by (simp add: py_sort_def)

lemma py_sort_descending: "sorted (rev (map key (py_sort key True xs)))"
  by (simp add: py_sort_def rev_map)

lemma date_key_dateless:
  "\<not> has_date x \<Longrightarrow> date_key reverse x = (if reverse then ''9999'' else ''0000'')"
  by (simp add: has_date_def date_key_def Let_def split: option.splits)

lemma date_key_dated: "has_date x \<Longrightarrow> date_key reverse x = date_of x"
  by (simp add: has_date_def date_key_def date_of_def Let_def split: option.splits)

lemma date_key_year: "date_key reverse (x\<lparr>publication_year := y\<rparr>) = date_key reverse x"
  by (simp add: date_key_def Let_def split: option.splits)


lemma insort_key_map:
  "insort_key f (h x) (map h ys) = map h (insort_key (\<lambda>a. f (h a)) x ys)"
  by (induction ys) simp_all

lemma sort_key_map: "sort_key f (map h xs) = map h (sort_key (\<lambda>a. f (h a)) xs)"
  by (induction xs) (simp_all add: insort_key_map)

lemma py_sort_map: "py_sort f r (map h xs) = map h (py_sort (\<lambda>a. f (h a)) r xs)"
  by (simp add: py_sort_def sort_key_map rev_map)

text \<open>
  In a list sorted by \<open>f\<close>, where every element outside \<open>P\<close> has a smaller key than
  every element inside, the elements outside \<open>P\<close> come first.
\<close>

lemma sorted_split_low:
  assumes "sorted (map f ys)"
    and "\<forall>a\<in>set ys. \<forall>b\<in>set ys. \<not> P a \<and> P b \<longrightarrow> f a < f b"
  shows "ys = filter (\<lambda>x. \<not> P x) ys @ filter P ys"
  using assms
proof (induction ys)
  case Nil
  then show ?case by simp
next
  case (Cons y ys)
  have ih: "ys = filter (\<lambda>x. \<not> P x) ys @ filter P ys"
    using Cons by simp
  show ?case
  proof (cases "P y")
    case False
    then show ?thesis using ih by simp
  next
    case True
    have "\<forall>a\<in>set ys. P a"
    proof
      fix a assume a: "a \<in> set ys"
      show "P a"
      proof (rule ccontr)
        assume "\<not> P a"
        with True a Cons.prems(2) have "f a < f y" by simp
        moreover from a Cons.prems(1) have "f y \<le> f a" by simp
        ultimately show False by simp
      qed
    qed
    then have "filter (\<lambda>x. \<not> P x) ys = []" and "filter P ys = ys"
      by (simp_all add: filter_empty_conv filter_id_conv)
    with True show ?thesis by simp
  qed
qed

lemma sort_key_cong_set:
  "(\<And>x. x \<in> set xs \<Longrightarrow> f x = g x) \<Longrightarrow> sort_key f xs = sort_key g xs"
proof (induction xs)
  case Nil
  then show ?case by simp
next
  case (Cons x xs)
  have "insort_key f x ys = insort_key g x ys" if "set ys \<subseteq> set xs" for ys
    using that Cons.prems by (induction ys) auto
  with Cons show ?case by simp
qed

lemma sorted_map_const: "\<forall>x\<in>set zs. f x = c \<Longrightarrow> sorted (map f zs)"
  by (induction zs) simp_all

lemma date_sort_ascending_split:
  assumes "\<forall>x\<in>set xs. has_date x \<longrightarrow> ''0000'' < date_of x"
  shows "sort_key (date_key False) xs
       = filter (\<lambda>x. \<not> has_date x) xs @ sort_key date_of (filter has_date xs)"
proof -
  let ?f = "date_key False"
  let ?ys = "sort_key ?f xs"
  have low: "\<forall>a\<in>set ?ys. \<forall>b\<in>set ?ys. \<not> has_date a \<and> has_date b \<longrightarrow> ?f a < ?f b"
    using assms by (auto simp: date_key_dateless date_key_dated)
  have "?ys = filter (\<lambda>x. \<not> has_date x) ?ys @ filter has_date ?ys"
    by (rule sorted_split_low [OF _ low]) simp
  also have "filter (\<lambda>x. \<not> has_date x) ?ys = sort_key ?f (filter (\<lambda>x. \<not> has_date x) xs)"
    by (rule filter_sort)
  also have "\<dots> = filter (\<lambda>x. \<not> has_date x) xs"
    by (rule sort_key_id_if_sorted)
       (rule sorted_map_const [where c = "''0000''"], simp add: date_key_dateless)
  also have "filter has_date ?ys = sort_key ?f (filter has_date xs)"
    by (rule filter_sort)
  also have "\<dots> = sort_key date_of (filter has_date xs)"
    by (rule sort_key_cong_set) (simp add: date_key_dated)
  finally show ?thesis .
qed

lemma sort_sample_date_asc:
  "sort_sample (Some ''publication_date'') ''asc'' xs = sort_key (date_key False) xs"
  by (simp add: sort_sample_def py_sort_def)

lemma sort_sample_date:
  "sort_sample (Some ''publication_date'') order xs
     = py_sort (date_key (order = ''desc'')) (order = ''desc'') xs"
  by (simp add: sort_sample_def Let_def)

lemma dated_part_ascending:
  "sorted (map date_of (filter has_date (sort_key (date_key False) xs)))"
proof -
  have "sorted (map (date_key False) (filter has_date (sort_key (date_key False) xs)))"
    by (rule sorted_filter) simp
  moreover have "map (date_key False) (filter has_date (sort_key (date_key False) xs))
               = map date_of (filter has_date (sort_key (date_key False) xs))"
    by (rule map_cong) (simp_all add: date_key_dated)
  ultimately show ?thesis by simp
qed

lemma dateless_keep_order:
  "filter (\<lambda>x. \<not> has_date x) (py_sort (date_key r) r xs) = filter (\<lambda>x. \<not> has_date x) xs"
proof -
  let ?k = "if r then ''9999'' else ''0000''"
  have narrow: "filter (\<lambda>x. \<not> has_date x) zs
              = filter (\<lambda>x. \<not> has_date x) (filter (\<lambda>x. date_key r x = ?k) zs)" for zs
    by (induction zs) (simp_all add: date_key_dateless)
  have "filter (\<lambda>x. \<not> has_date x) (py_sort (date_key r) r xs)
      = filter (\<lambda>x. \<not> has_date x) (filter (\<lambda>x. date_key r x = ?k) (py_sort (date_key r) r xs))"
    by (rule narrow)
  also have "\<dots> = filter (\<lambda>x. \<not> has_date x) (filter (\<lambda>x. date_key r x = ?k) xs)"
    by (simp only: py_sort_stable)
  also have "\<dots> = filter (\<lambda>x. \<not> has_date x) xs"
    by (rule narrow [symmetric])
  finally show ?thesis .
qed

section \<open>The date comparator of the client-side ranker\<close>

text \<open>
  C1, as amended.  When the sample is sorted by date in ascending order, the items that
  have a publication date appear in non-decreasing date order, and the items without one
  are keyed by the sentinel \<open>''0000''\<close>: in a sample whose dates are all above the
  sentinel they come first, at the head of the list and in discovery order, followed by
  the dated items in ascending date order.  They do not sort to the tail.
\<close>

theorem date_sort_asc_dateless_first:
  "sorted (map date_of (filter has_date (sort_sample (Some ''publication_date'') ''asc'' xs)))
   \<and> ((\<forall>x\<in>set xs. has_date x \<longrightarrow> ''0000'' < date_of x) \<longrightarrow>
        sort_sample (Some ''publication_date'') ''asc'' xs
          = filter (\<lambda>x. \<not> has_date x) xs @ sort_key date_of (filter has_date xs))"
proof (intro conjI impI)
  show "sorted (map date_of (filter has_date (sort_sample (Some ''publication_date'') ''asc'' xs)))"
    by (simp add: sort_sample_date_asc dated_part_ascending)
next
  assume above: "\<forall>x\<in>set xs. has_date x \<longrightarrow> ''0000'' < date_of x"
  show "sort_sample (Some ''publication_date'') ''asc'' xs
          = filter (\<lambda>x. \<not> has_date x) xs @ sort_key date_of (filter has_date xs)"
    using date_sort_ascending_split [OF above] by (simp add: sort_sample_date_asc)
qed

theorem date_sort_asc_dateless_first_witness:
  "has_date ex_dated \<and> ''0000'' < date_of ex_dated \<and> \<not> has_date ex_undated
   \<and> sort_sample (Some ''publication_date'') ''asc'' [ex_dated, ex_undated]
       = [ex_undated, ex_dated]"
  using date_sort_asc_dateless_first [of "[ex_dated, ex_undated]"]
  by (simp add: has_date_def date_of_def ex_dated_def ex_undated_def)

text \<open>
  The claim as stated fails in both directions: an item without a date is put in front
  of a dated item under ascending order (not at the tail) and under descending order
  (not last).
\<close>

theorem date_sort_dateless_position_counterexample:
  "has_date ex_dated \<and> \<not> has_date ex_undated
   \<and> sort_sample (Some ''publication_date'') ''asc'' [ex_dated, ex_undated]
       = [ex_undated, ex_dated]
   \<and> sort_sample (Some ''publication_date'') ''desc'' [ex_dated, ex_undated]
       = [ex_undated, ex_dated]"
  by (simp add: sort_sample_def py_sort_def date_key_def has_date_def ex_dated_def
        ex_undated_def)

text \<open>
  C10.  The publication year never influences the position of an item under the date
  comparator: changing the year of an item does not change its key, two items without a
  publication date have the same key whatever their years, the items without a date keep
  their discovery order in the sorted sample, and rewriting the years of a whole sample
  commutes with sorting it.
\<close>

theorem publication_year_never_ranks:
  "date_key reverse (x\<lparr>publication_year := y\<rparr>) = date_key reverse x
   \<and> (\<not> has_date a \<and> \<not> has_date b \<longrightarrow> date_key reverse a = date_key reverse b)
   \<and> filter (\<lambda>x. \<not> has_date x) (sort_sample (Some ''publication_date'') order xs)
       = filter (\<lambda>x. \<not> has_date x) xs
   \<and> sort_sample (Some ''publication_date'') order (map (\<lambda>x. x\<lparr>publication_year := g x\<rparr>) xs)
       = map (\<lambda>x. x\<lparr>publication_year := g x\<rparr>) (sort_sample (Some ''publication_date'') order xs)"
proof -
  have "py_sort (date_key r) r (map (\<lambda>x. x\<lparr>publication_year := g x\<rparr>) xs)
      = map (\<lambda>x. x\<lparr>publication_year := g x\<rparr>) (py_sort (date_key r) r xs)" for r
    by (simp add: py_sort_map date_key_year)
  then show ?thesis
    by (simp add: date_key_year date_key_dateless sort_sample_date dateless_keep_order)
qed

theorem publication_year_never_ranks_witness:
  "\<not> has_date ex_undated \<and> \<not> has_date ex_undated_old
   \<and> publication_year ex_undated \<noteq> publication_year ex_undated_old
   \<and> date_key True ex_undated = date_key True ex_undated_old
   \<and> filter (\<lambda>x. \<not> has_date x)
        (sort_sample (Some ''publication_date'') ''desc'' [ex_undated, ex_dated, ex_undated_old])
       = [ex_undated, ex_undated_old]"
  using publication_year_never_ranks
          [where reverse = True and a = ex_undated and b = ex_undated_old
             and order = "''desc''" and xs = "[ex_undated, ex_dated, ex_undated_old]"]
  by (simp add: has_date_def ex_dated_def ex_undated_def ex_undated_old_def)

section \<open>The accumulation loop of the client-side ranker\<close>

text \<open>
  With pages of at most 100 items the sample grows by exactly 100 items per full page,
  so its length stays a multiple of 100 while the loop runs.
\<close>

lemma accumulate_bounds:
  assumes pages: "\<forall>k req d. u k req = Inr d \<longrightarrow> int (length (get_results d)) \<le> max_page_size"
  shows "target \<le> 500 \<Longrightarrow> length acc mod 100 = 0 \<Longrightarrow>
         accumulate u n ep st kw target page acc log data = (log', r) \<Longrightarrow>
         length log' \<le> length log + (5 - length acc div 100)
         \<and> (\<forall>acc' d'. r = Inr (acc', d') \<longrightarrow> length acc' \<le> 500 \<or> acc' = acc)"
  using pages
proof (induction u n ep st kw target page acc log data arbitrary: log' r rule: accumulate.induct)
  case (1 u n ep st kw target page acc log data)
  note pages = "1.prems"(4)
  show ?case
  proof (cases "int (length acc) < target")
    case False
    with "1.prems"(3) show ?thesis
      by (subst (asm) accumulate.simps) auto
  next
    case True
    define req where "req = \<lparr>url = ep, params = build_params st kw page max_page_size ''desc'' None\<rparr>"
    from True "1.prems"(1) have lt: "length acc < 500" by simp
    with "1.prems"(2) have le400: "length acc \<le> 400" by presburger
    then have k4: "length acc div 100 \<le> 4" by simp
    show ?thesis
    proof (cases "u (n + length log) req")
      case (Inl e)
      with True "1.prems"(3) k4 show ?thesis
        by (subst (asm) accumulate.simps) (auto simp: req_def Let_def)
    next
      case (Inr d)
      with pages have le100: "length (get_results d) \<le> 100"
        by (auto simp: max_page_size_def)
      show ?thesis
      proof (cases "get_results d = [] \<or> int (length (get_results d)) < max_page_size")
        case True
        with \<open>int (length acc) < target\<close> Inr "1.prems"(3) k4 le400 le100 show ?thesis
          by (subst (asm) accumulate.simps) (auto simp: req_def Let_def split: if_splits)
      next
        case False
        then have full: "length (get_results d) = 100" and ne: "get_results d \<noteq> []"
          and ns: "\<not> int (length (get_results d)) < max_page_size"
          using le100 by (auto simp: max_page_size_def)
        have rec: "accumulate u n ep st kw target (page + 1) (acc @ get_results d) (log @ [req]) (Some d) = (log', r)"
          using \<open>int (length acc) < target\<close> Inr ne ns "1.prems"(3)
          by (subst (asm) accumulate.simps) (simp add: req_def Let_def)
        have mod': "length (acc @ get_results d) mod 100 = 0"
          using "1.prems"(2) full by simp
        have ih: "length log' \<le> length (log @ [req]) + (5 - length (acc @ get_results d) div 100)
             \<and> (\<forall>acc' d'. r = Inr (acc', d') \<longrightarrow> length acc' \<le> 500 \<or> acc' = acc @ get_results d)"
          by (rule "1.IH" [OF \<open>int (length acc) < target\<close> req_def Inr refl ne ns "1.prems"(1) mod' rec pages])
        have "length (acc @ get_results d) div 100 = Suc (length acc div 100)"
          using full by simp
        with ih k4 le400 full show ?thesis by auto
      qed
    qed
  qed
qed

lemma accumulate_log:
  "accumulate u n ep st kw target page acc log data = (log', r) \<Longrightarrow>
   \<forall>q\<in>set log'. q \<in> set log \<or> (\<exists>p. q = ranked_request ep st kw p)"
proof (induction u n ep st kw target page acc log data arbitrary: log' r rule: accumulate.induct)
  case (1 u n ep st kw target page acc log data)
  show ?case
  proof (cases "int (length acc) < target")
    case False
    with "1.prems" show ?thesis
      by (subst (asm) accumulate.simps) auto
  next
    case True
    define req where "req = \<lparr>url = ep, params = build_params st kw page max_page_size ''desc'' None\<rparr>"
    have req: "req = ranked_request ep st kw page"
      by (simp add: req_def ranked_request_def)
    show ?thesis
    proof (cases "u (n + length log) req")
      case (Inl e)
      with True "1.prems" req show ?thesis
        by (subst (asm) accumulate.simps) (auto simp: req_def Let_def)
    next
      case (Inr d)
      show ?thesis
      proof (cases "get_results d = [] \<or> int (length (get_results d)) < max_page_size")
        case stop: True
        with True Inr "1.prems" req show ?thesis
          by (subst (asm) accumulate.simps) (auto simp: req_def Let_def split: if_splits)
      next
        case False
        then have ne: "get_results d \<noteq> []"
          and ns: "\<not> int (length (get_results d)) < max_page_size"
          by auto
        have rec: "accumulate u n ep st kw target (page + 1) (acc @ get_results d) (log @ [req]) (Some d) = (log', r)"
          using True Inr ne ns "1.prems"
          by (subst (asm) accumulate.simps) (simp add: req_def Let_def)
        have "\<forall>q\<in>set log'. q \<in> set (log @ [req]) \<or> (\<exists>p. q = ranked_request ep st kw p)"
          by (rule "1.IH" [OF True req_def Inr refl ne ns rec])
        with req show ?thesis by auto
      qed
    qed
  qed
qed

lemma accumulate_log_grows:
  "accumulate u n ep st kw target page acc log data = (log', r) \<Longrightarrow>
   length log \<le> length log' \<and> (int (length acc) < target \<longrightarrow> length log < length log')"
proof (induction u n ep st kw target page acc log data arbitrary: log' r rule: accumulate.induct)
  case (1 u n ep st kw target page acc log data)
  show ?case
  proof (cases "int (length acc) < target")
    case False
    with "1.prems" show ?thesis
      by (subst (asm) accumulate.simps) auto
  next
    case True
    define req where "req = \<lparr>url = ep, params = build_params st kw page max_page_size ''desc'' None\<rparr>"
    show ?thesis
    proof (cases "u (n + length log) req")
      case (Inl e)
      with True "1.prems" show ?thesis
        by (subst (asm) accumulate.simps) (auto simp: req_def Let_def)
    next
      case (Inr d)
      show ?thesis
      proof (cases "get_results d = [] \<or> int (length (get_results d)) < max_page_size")
        case stop: True
        with True Inr "1.prems" show ?thesis
          by (subst (asm) accumulate.simps) (auto simp: req_def Let_def split: if_splits)
      next
        case False
        then have ne: "get_results d \<noteq> []"
          and ns: "\<not> int (length (get_results d)) < max_page_size"
          by auto
        have rec: "accumulate u n ep st kw target (page + 1) (acc @ get_results d) (log @ [req]) (Some d) = (log', r)"
          using True Inr ne ns "1.prems"
          by (subst (asm) accumulate.simps) (simp add: req_def Let_def)
        have "length (log @ [req]) \<le> length log'"
          using "1.IH" [OF True req_def Inr refl ne ns rec] by simp
        then show ?thesis by simp
      qed
    qed
  qed
qed

lemma accumulate_first_request:
  "0 < target \<Longrightarrow> fst (accumulate u n ep st kw target page [] [] data) \<noteq> []"
  using accumulate_log_grows [of u n ep st kw target page "[]" "[]" data]
  by (cases "accumulate u n ep st kw target page [] [] data") auto

lemma accumulate_cong:
  "\<forall>k q. url q = ep \<longrightarrow> u' k q = u k q \<Longrightarrow>
   accumulate u' n ep st kw target page acc log data
     = accumulate u n ep st kw target page acc log data"
proof (induction u n ep st kw target page acc log data rule: accumulate.induct)
  case (1 u n ep st kw target page acc log data)
  show ?case
  proof (cases "int (length acc) < target")
    case False
    then show ?thesis
      by (simp add: accumulate.simps [of u'] accumulate.simps [of u])
  next
    case True
    define req where "req = \<lparr>url = ep, params = build_params st kw page max_page_size ''desc'' None\<rparr>"
    have same: "u' (n + length log) req = u (n + length log) req"
      using "1.prems" by (simp add: req_def)
    show ?thesis
    proof (cases "u (n + length log) req")
      case (Inl e)
      with True same show ?thesis
        by (simp add: accumulate.simps [of u' n ep st kw target page acc log data]
              accumulate.simps [of u n ep st kw target page acc log data] req_def Let_def)
    next
      case (Inr d)
      show ?thesis
      proof (cases "get_results d = [] \<or> int (length (get_results d)) < max_page_size")
        case stop: True
        with True Inr same show ?thesis
          by (auto simp add: accumulate.simps [of u' n ep st kw target page acc log data]
              accumulate.simps [of u n ep st kw target page acc log data] req_def Let_def)
      next
        case False
        then have ne: "get_results d \<noteq> []"
          and ns: "\<not> int (length (get_results d)) < max_page_size"
          by auto
        have "accumulate u' n ep st kw target (page + 1) (acc @ get_results d) (log @ [req]) (Some d)
            = accumulate u n ep st kw target (page + 1) (acc @ get_results d) (log @ [req]) (Some d)"
          by (rule "1.IH" [OF True req_def Inr refl ne ns "1.prems"])
        with True Inr same ne ns show ?thesis
          by (simp add: accumulate.simps [of u' n ep st kw target page acc log data]
              accumulate.simps [of u n ep st kw target page acc log data] req_def Let_def)
      qed
    qed
  qed
qed

lemma target_count_range: "200 \<le> target_count page sz \<and> target_count page sz \<le> 500"
  by (auto simp: target_count_def Let_def)

lemma ranked_search_log:
  assumes "truthy sort_arg"
  shows "fst (search_acemap u n ''work'' keyword page sz order sort_arg)
       = fst (accumulate u n (API_BASE @ ''/work/search'') ''work'' keyword
                (target_count page sz) 1 [] [] None)"
proof -
  let ?run = "accumulate u n (API_BASE @ ''/work/search'') ''work'' keyword
                (target_count page sz) 1 [] [] None"
  have "map_of ENDPOINTS ''work'' = Some (API_BASE @ ''/work/search'')"
    by (simp add: ENDPOINTS_def)
  with assms show ?thesis
    by (cases ?run) (auto simp: search_acemap_def Let_def split: sum.splits option.splits)
qed

text \<open>
  C2.  The target of the accumulation loop is \<open>max (page * size) 200\<close> capped at 500.
  If every page that the upstream returns holds at most 100 items, the loop issues at
  most five requests and the sample it gathers holds at most 500 items, for every page
  and page size requested.
\<close>

theorem accumulation_target_and_bound:
  assumes "\<forall>k req d. u k req = Inr d \<longrightarrow> int (length (get_results d)) \<le> max_page_size"
  shows "target_count page sz = min 500 (max (page * sz) 200)
         \<and> length (fst (accumulate u n ep st kw (target_count page sz) 1 [] [] None)) \<le> 5
         \<and> (\<forall>acc d. snd (accumulate u n ep st kw (target_count page sz) 1 [] [] None) = Inr (acc, d)
               \<longrightarrow> length acc \<le> 500)
         \<and> (truthy sort_arg \<longrightarrow>
               length (fst (search_acemap u n ''work'' kw page sz order sort_arg)) \<le> 5)"
proof -
  have cap: "target_count page sz \<le> 500"
    by (simp add: target_count_range)
  have bound: "length log' \<le> 5 \<and> (\<forall>acc' d'. r = Inr (acc', d') \<longrightarrow> length acc' \<le> 500)"
    if run: "accumulate u n e s kw (target_count page sz) 1 [] [] None = (log', r)"
    for e s log' r
    using accumulate_bounds [OF assms cap _ run] by auto
  obtain log' r where run:
    "accumulate u n ep st kw (target_count page sz) 1 [] [] None = (log', r)"
    by (cases "accumulate u n ep st kw (target_count page sz) 1 [] [] None")
  have target: "target_count page sz = min 500 (max (page * sz) 200)"
    by (simp add: target_count_def Let_def)
  have ranked: "length (fst (search_acemap u n ''work'' kw page sz order sort_arg)) \<le> 5"
    if "truthy sort_arg"
    using bound [OF prod.collapse [symmetric]] ranked_search_log [OF that, of u n kw page sz order]
    by simp
  from bound [OF run] run target ranked show ?thesis by simp
qed

theorem accumulation_target_and_bound_witness:
  "target_count 3 100 = 300
   \<and> length (fst (accumulate ex_upstream_full 0 ''u'' ''work'' ''rock'' (target_count 3 100) 1 [] [] None)) \<le> 5
   \<and> map_sum str_exn (\<lambda>(acc, d). length acc)
        (snd (accumulate ex_upstream_full 0 ''u'' ''work'' ''rock'' 300 1 [] [] None)) = Inr 300"
proof -
  have pages: "\<forall>k req d. ex_upstream_full k req = Inr d \<longrightarrow>
                 int (length (get_results d)) \<le> max_page_size"
    by (auto simp: ex_upstream_full_def get_results_def max_page_size_def)
  have gathered: "map_sum str_exn (\<lambda>(acc, d). length acc)
      (snd (accumulate ex_upstream_full 0 ''u'' ''work'' ''rock'' 300 1 [] [] None)) = Inr 300"
    by code_simp
  have target: "target_count 3 100 = 300"
    by (simp add: target_count_def)
  from accumulation_target_and_bound
         [OF pages, where page = 3 and sz = 100 and n = 0 and ep = "''u''" and st = "''work''"
            and kw = "''rock''"]
    gathered target
  show ?thesis by simp
qed

section \<open>The requests of the client-side ranker\<close>

lemma ranked_request_params:
  "map_of (params (ranked_request ep ''work'' kw p)) ''sort'' = None
   \<and> map_of (params (ranked_request ep ''work'' kw p)) ''order'' = Some (PStr ''desc'')
   \<and> map_of (params (ranked_request ep ''work'' kw p)) ''size'' = Some (PInt 100)"
  by (simp add: ranked_request_def build_params_def max_page_size_def)

text \<open>
  C3, as amended.  In a ranked search (type work and a non-empty sort key) at least one
  request is issued, and every request issued by the accumulation loop omits the
  \<^verbatim>\<open>sort\<close> parameter, carries \<^verbatim>\<open>order=desc\<close> whatever order was asked for, and asks
  for pages of 100.
\<close>

theorem ranked_requests_omit_sort_fix_order:
  assumes "truthy sort_arg"
  shows "fst (search_acemap u n ''work'' keyword page sz order sort_arg) \<noteq> []
         \<and> (\<forall>q\<in>set (fst (search_acemap u n ''work'' keyword page sz order sort_arg)).
               map_of (params q) ''sort'' = None
               \<and> map_of (params q) ''order'' = Some (PStr ''desc'')
               \<and> map_of (params q) ''size'' = Some (PInt 100))"
proof -
  let ?ep = "API_BASE @ ''/work/search''"
  have run: "fst (search_acemap u n ''work'' keyword page sz order sort_arg)
           = fst (accumulate u n ?ep ''work'' keyword (target_count page sz) 1 [] [] None)"
    by (rule ranked_search_log [OF assms])
  have pos: "0 < target_count page sz"
    using target_count_range [of page sz] by simp
  obtain log' r where
    acc: "accumulate u n ?ep ''work'' keyword (target_count page sz) 1 [] [] None = (log', r)"
    by (cases "accumulate u n ?ep ''work'' keyword (target_count page sz) 1 [] [] None")
  from accumulate_log [OF acc]
  have "\<forall>q\<in>set log'. \<exists>p. q = ranked_request ?ep ''work'' keyword p"
    by simp
  then have "\<forall>q\<in>set log'. map_of (params q) ''sort'' = None
               \<and> map_of (params q) ''order'' = Some (PStr ''desc'')
               \<and> map_of (params q) ''size'' = Some (PInt 100)"
    by (auto simp: ranked_request_params)
  moreover have "log' \<noteq> []"
    using accumulate_first_request [OF pos, of u n ?ep "''work''" keyword 1 None] acc by simp
  ultimately show ?thesis
    using run acc by simp
qed

theorem ranked_requests_omit_sort_fix_order_witness:
  "truthy (Some ''relevance_score'')
   \<and> fst (search_acemap ex_upstream_empty 0 ''work'' ''rock'' 1 10 ''asc'' (Some ''relevance_score''))
       = [ranked_request ''https://acemap.info/api/v1/work/search'' ''work'' ''rock'' 1]
   \<and> map_of (params (ranked_request ''https://acemap.info/api/v1/work/search'' ''work'' ''rock'' 1))
        ''sort'' = None"
proof -
  have issued:
    "fst (search_acemap ex_upstream_empty 0 ''work'' ''rock'' 1 10 ''asc'' (Some ''relevance_score''))
       = [ranked_request ''https://acemap.info/api/v1/work/search'' ''work'' ''rock'' 1]"
    by code_simp
  have key: "truthy (Some ''relevance_score'')"
    by (simp add: truthy_def)
  from ranked_requests_omit_sort_fix_order
         [OF key, of ex_upstream_empty 0 "''rock''" 1 10 "''asc''"]
    issued key
  show ?thesis by simp
qed

text \<open>
  The claim as stated fails: the one request of a ranked search with the order
  \<open>''asc''\<close> and a sort key unknown to the upstream carries \<^verbatim>\<open>order=desc\<close>.
\<close>

theorem ranked_request_carries_order_counterexample:
  "fst (search_acemap ex_upstream_empty 0 ''work'' ''rock'' 1 10 ''asc'' (Some ''relevance_score''))
     = [\<lparr>url = ''https://acemap.info/api/v1/work/search'',
         params = [(''keyword'', PStr ''rock''), (''page'', PInt 1), (''size'', PInt 100),
                   (''order'', PStr ''desc'')]\<rparr>]
   \<and> map_of [(''keyword'', PStr ''rock''), (''page'', PInt 1), (''size'', PInt 100),
              (''order'', PStr ''desc'')] ''order'' = Some (PStr ''desc'')"
proof -
  have "fst (search_acemap ex_upstream_empty 0 ''work'' ''rock'' 1 10 ''asc'' (Some ''relevance_score''))
     = [\<lparr>url = ''https://acemap.info/api/v1/work/search'',
         params = [(''keyword'', PStr ''rock''), (''page'', PInt 1), (''size'', PInt 100),
                   (''order'', PStr ''desc'')]\<rparr>]"
    by code_simp
  then show ?thesis by simp
qed

section \<open>The neighbour index\<close>

lemma most_common_length: "0 \<le> n \<Longrightarrow> int (length (most_common n counter)) \<le> n"
  by (simp add: most_common_def)

lemma most_common_subset: "set (most_common n counter) \<subseteq> set counter"
proof -
  have "set (take (nat n) (py_sort snd True counter)) \<subseteq> set (py_sort snd True counter)"
    by (rule set_take_subset)
  then show ?thesis by (simp add: most_common_def set_py_sort)
qed

lemma counter_del_absent: "k \<notin> fst ` set (counter_del k counter)"
  by (auto simp: counter_del_def)

text \<open>
  The length bound of \<^verbatim>\<open>find_related_concepts\<close>, and what line 78 removes: the
  lower-cased, stripped keyword, compared with the candidates as they are spelled in
  the table.
\<close>

lemma find_related_concepts_length:
  "0 \<le> top_k \<Longrightarrow> int (length (find_related_concepts kg keyword top_k)) \<le> top_k"
  by (simp add: find_related_concepts_def Let_def most_common_length split: option.splits)

lemma find_related_concepts_not_normalised:
  "strip (lower keyword) \<notin> set (find_related_concepts kg keyword top_k)"
proof (cases "df kg")
  case None
  then show ?thesis by (simp add: find_related_concepts_def)
next
  case (Some rows)
  show ?thesis
  proof (cases "rows = []")
    case True
    with Some show ?thesis by (simp add: find_related_concepts_def)
  next
    case False
    have "strip (lower keyword) \<notin> fst ` set (most_common top_k (counter_del (strip (lower keyword)) c))"
      for c :: "(string \<times> nat) list"
      using most_common_subset [of top_k "counter_del (strip (lower keyword)) c"]
            counter_del_absent [of "strip (lower keyword)" c]
      by blast
    with Some False show ?thesis
      by (simp add: find_related_concepts_def Let_def)
  qed
qed

text \<open>
  C6.  The query concept itself is returned when the table spells it with a capital
  letter: the lookup of the concept \<open>''Rock''\<close> in a table holding the one triple
  (Rock, relates_to, rock formation, p1) returns \<open>''Rock''\<close> among its own neighbours.
\<close>

theorem find_related_concepts_returns_query:
  "find_related_concepts ex_kg_capital ''Rock'' 3 = [''rock formation'', ''Rock'']"
  by code_simp

text \<open>
  C7.  With the two triples (rock, relates_to, plate tectonics, p1) and
  (mineral, relates_to, rock, p2) the neighbours of \<open>''rock''\<close>, at most three, are
  \<open>''plate tectonics''\<close> and then \<open>''mineral''\<close>: both are counted twice and the one met
  first comes first.  With no triples, or no table, the result is empty for every
  concept and every bound.
\<close>

theorem find_related_concepts_scenario:
  "find_related_concepts ex_kg_rock ''rock'' 3 = [''plate tectonics'', ''mineral'']
   \<and> find_related_concepts \<lparr>df = Some []\<rparr> keyword top_k = []
   \<and> find_related_concepts \<lparr>df = None\<rparr> keyword top_k = []"
proof -
  have "find_related_concepts ex_kg_rock ''rock'' 3 = [''plate tectonics'', ''mineral'']"
    by code_simp
  then show ?thesis by (simp add: find_related_concepts_def)
qed

section \<open>The intent parser\<close>

text \<open>
  C8.  For every non-empty query the keyword returned by \<^verbatim>\<open>parse\<close> is non-empty, and
  when the removal of stop phrases and intent words leaves nothing, the keyword is the
  original query, untouched.
\<close>

theorem parse_keyword_nonempty:
  "query \<noteq> [] \<Longrightarrow>
     intent_keyword (parse query) \<noteq> []
     \<and> (clean_keyword query (sort_intent_of (lower query)) (type_intent_of (lower query)) = []
          \<longrightarrow> intent_keyword (parse query) = query)"
  by (simp add: parse_def Let_def)

theorem parse_keyword_nonempty_witness:
  "''latest'' \<noteq> []
   \<and> clean_keyword ''latest'' (sort_intent_of (lower ''latest'')) (type_intent_of (lower ''latest'')) = []
   \<and> intent_keyword (parse ''latest'') = ''latest''"
proof -
  have emptied:
    "clean_keyword ''latest'' (sort_intent_of (lower ''latest'')) (type_intent_of (lower ''latest'')) = []"
    by code_simp
  from parse_keyword_nonempty [of "''latest''"] emptied show ?thesis by simp
qed

section \<open>The recall aggregator\<close>

lemma merge_unseen_append:
  "\<exists>new. merge_unseen fl seen xs = fl @ new \<and> set new \<subseteq> set xs"
proof (induction xs arbitrary: fl seen)
  case Nil
  then show ?case by simp
next
  case (Cons x xs)
  show ?case
  proof (cases "item_id x \<in> seen")
    case True
    with Cons [of fl seen] show ?thesis by auto
  next
    case False
    from Cons [of "fl @ [x]" "insert (item_id x) seen"] obtain new where
      "merge_unseen (fl @ [x]) (insert (item_id x) seen) xs = (fl @ [x]) @ new" "set new \<subseteq> set xs"
      by blast
    with False show ?thesis by (intro exI [of _ "x # new"]) auto
  qed
qed

lemma merge_unseen_distinct:
  "seen = set (map item_id fl) \<Longrightarrow> distinct (map item_id fl) \<Longrightarrow>
   distinct (map item_id (merge_unseen fl seen xs))"
proof (induction xs arbitrary: fl seen)
  case Nil
  then show ?case by simp
next
  case (Cons x xs)
  show ?case
  proof (cases "item_id x \<in> seen")
    case True
    with Cons.prems Cons.IH [of seen fl] show ?thesis by simp
  next
    case False
    have "distinct (map item_id (merge_unseen (fl @ [x]) (insert (item_id x) seen) xs))"
      using False Cons.prems by (intro Cons.IH) auto
    with False show ?thesis by simp
  qed
qed

lemma find_append:
  "find P (xs @ ys) = (case find P xs of None \<Rightarrow> find P ys | Some x \<Rightarrow> Some x)"
  by (induction xs) simp_all

lemma merge_unseen_find:
  "seen = set (map item_id fl) \<Longrightarrow>
   find (\<lambda>x. item_id x = i) (merge_unseen fl seen xs) = find (\<lambda>x. item_id x = i) (fl @ xs)"
proof (induction xs arbitrary: fl seen)
  case Nil
  then show ?case by simp
next
  case (Cons x xs)
  show ?case
  proof (cases "item_id x \<in> seen")
    case False
    with Cons.prems Cons.IH [of "insert (item_id x) seen" "fl @ [x]"] show ?thesis by simp
  next
    case True
    have skip: "find (\<lambda>x. item_id x = i) (fl @ x # xs) = find (\<lambda>x. item_id x = i) (fl @ xs)"
    proof (cases "item_id x = i")
      case False
      then show ?thesis by (simp add: find_append split: option.splits)
    next
      case same: True
      with True Cons.prems obtain y where "y \<in> set fl" "item_id y = i" by auto
      then have "find (\<lambda>x. item_id x = i) fl \<noteq> None"
        by (auto simp: find_None_iff)
      then show ?thesis by (auto simp: find_append split: option.splits)
    qed
    with True Cons.prems Cons.IH [of seen fl] show ?thesis by simp
  qed
qed

lemma expand_concepts_tagged:
  "expand_concepts u n sort_arg order cs acc = (log, out) \<Longrightarrow>
   \<forall>x\<in>set out. x \<in> set acc \<or> (\<exists>c\<in>set cs. source_concept x = Some c)"
proof (induction cs arbitrary: n acc log out)
  case Nil
  then show ?case by simp
next
  case (Cons c cs)
  obtain log_c res where s: "search_acemap u n ''work'' c 1 2 order sort_arg = (log_c, res)"
    by (cases "search_acemap u n ''work'' c 1 2 order sort_arg")
  define acc' where "acc' = (case res of Inl e \<Rightarrow> acc
     | Inr p \<Rightarrow> acc @ map (\<lambda>it. it\<lparr>source_concept := Some c\<rparr>) (get_results p))"
  obtain log_r out_r where r: "expand_concepts u (n + length log_c) sort_arg order cs acc' = (log_r, out_r)"
    by (cases "expand_concepts u (n + length log_c) sort_arg order cs acc'")
  from Cons.prems s r have out: "out = out_r"
    by (simp add: acc'_def Let_def)
  have acc': "\<forall>x\<in>set acc'. x \<in> set acc \<or> source_concept x = Some c"
    by (auto simp: acc'_def split: sum.splits)
  from Cons.IH [OF r] acc' out show ?case by fastforce
qed

lemma recall_results_merge:
  "recall_results (snd (search_with_recall u n keyword kg sort_arg order))
     = merge_unseen (original_items u n keyword sort_arg order)
         (set (map item_id (original_items u n keyword sort_arg order)))
         (neighbour_items u n keyword kg sort_arg order)"
  by (simp add: search_with_recall_def original_items_def neighbour_items_def Let_def
        split_def)

lemma neighbour_items_tagged:
  "\<forall>x\<in>set (neighbour_items u n keyword kg sort_arg order).
     \<exists>c\<in>set (find_related_concepts kg keyword 3). source_concept x = Some c"
proof -
  let ?m = "n + length (fst (original_search u n keyword sort_arg order))"
  let ?cs = "find_related_concepts kg keyword 3"
  obtain log out where run: "expand_concepts u ?m sort_arg order ?cs [] = (log, out)"
    by (cases "expand_concepts u ?m sort_arg order ?cs []")
  from expand_concepts_tagged [OF run] run show ?thesis
    by (simp add: neighbour_items_def)
qed

text \<open>
  C4, as amended.  The merged list is the list of original-keyword results, as received,
  followed by neighbour-sourced items, each tagged with one of the related concepts, so
  every original-keyword item precedes every neighbour-sourced one, with or without a
  sort key.  For every id, the item of the merged list with that id is the first item
  with that id among the original results followed by the neighbour results: first seen
  wins.  If the original-keyword results have pairwise distinct ids, so has the merged
  list.
\<close>

theorem recall_merge_first_seen_wins:
  "(\<exists>new. recall_results (snd (search_with_recall u n keyword kg sort_arg order))
             = original_items u n keyword sort_arg order @ new
           \<and> set new \<subseteq> set (neighbour_items u n keyword kg sort_arg order)
           \<and> (\<forall>x\<in>set new. \<exists>c\<in>set (find_related_concepts kg keyword 3).
                 source_concept x = Some c))
   \<and> (\<forall>i. find (\<lambda>x. item_id x = i)
              (recall_results (snd (search_with_recall u n keyword kg sort_arg order)))
          = find (\<lambda>x. item_id x = i)
              (original_items u n keyword sort_arg order
                 @ neighbour_items u n keyword kg sort_arg order))
   \<and> (distinct (map item_id (original_items u n keyword sort_arg order)) \<longrightarrow>
        distinct (map item_id
          (recall_results (snd (search_with_recall u n keyword kg sort_arg order)))))"
proof -
  let ?orig = "original_items u n keyword sort_arg order"
  let ?nb = "neighbour_items u n keyword kg sort_arg order"
  let ?out = "recall_results (snd (search_with_recall u n keyword kg sort_arg order))"
  have out: "?out = merge_unseen ?orig (set (map item_id ?orig)) ?nb"
    by (rule recall_results_merge)
  obtain new where new: "?out = ?orig @ new" "set new \<subseteq> set ?nb"
    using merge_unseen_append [of ?orig "set (map item_id ?orig)" ?nb] out by auto
  have tagged: "\<forall>x\<in>set new. \<exists>c\<in>set (find_related_concepts kg keyword 3).
                  source_concept x = Some c"
    using new(2) neighbour_items_tagged [of u n keyword kg sort_arg order] by blast
  have first: "\<exists>new. ?out = ?orig @ new \<and> set new \<subseteq> set ?nb
                 \<and> (\<forall>x\<in>set new. \<exists>c\<in>set (find_related_concepts kg keyword 3).
                       source_concept x = Some c)"
    using new tagged by blast
  have second: "\<forall>i. find (\<lambda>x. item_id x = i) ?out = find (\<lambda>x. item_id x = i) (?orig @ ?nb)"
    by (simp only: out merge_unseen_find [OF refl] simp_thms)
  have third: "distinct (map item_id ?orig) \<longrightarrow> distinct (map item_id ?out)"
    by (simp only: out) (blast intro: merge_unseen_distinct [OF refl])
  from first second third show ?thesis by blast
qed

theorem recall_merge_first_seen_wins_witness:
  "distinct (map item_id (original_items ex_upstream_topics 0 ''rock'' None ''desc''))
   \<and> distinct (map item_id
        (recall_results (snd (search_with_recall ex_upstream_topics 0 ''rock'' ex_kg_rock None ''desc''))))
   \<and> recall_results (snd (search_with_recall ex_upstream_topics 0 ''rock'' ex_kg_rock None ''desc''))
       = [ex_dated, ex_undated, ex_highly_cited\<lparr>source_concept := Some ''plate tectonics''\<rparr>]"
proof -
  have orig: "original_items ex_upstream_topics 0 ''rock'' None ''desc'' = [ex_dated, ex_undated]"
    by code_simp
  have ids: "distinct (map item_id [ex_dated, ex_undated])"
    by (simp add: ex_dated_def ex_undated_def)
  have merged:
    "recall_results (snd (search_with_recall ex_upstream_topics 0 ''rock'' ex_kg_rock None ''desc''))
       = [ex_dated, ex_undated, ex_highly_cited\<lparr>source_concept := Some ''plate tectonics''\<rparr>]"
    by code_simp
  from recall_merge_first_seen_wins [of ex_upstream_topics 0 "''rock''" ex_kg_rock None "''desc''"]
    orig ids
  have "distinct (map item_id
          (recall_results (snd (search_with_recall ex_upstream_topics 0 ''rock'' ex_kg_rock None ''desc''))))"
    by simp
  with orig ids merged show ?thesis by simp
qed

text \<open>
  The claim as stated fails: when the upstream lists a work twice in its answer for the
  original keyword, both entries stay in the merged list.
\<close>

theorem recall_merge_duplicate_counterexample:
  "recall_results (snd (search_with_recall ex_upstream_twice 0 ''rock'' \<lparr>df = Some []\<rparr> None ''desc''))
     = [ex_dated, ex_reprint]
   \<and> item_id ex_dated = item_id ex_reprint"
proof -
  have "recall_results (snd (search_with_recall ex_upstream_twice 0 ''rock'' \<lparr>df = Some []\<rparr> None ''desc''))
     = [ex_dated, ex_reprint]"
    by code_simp
  then show ?thesis by (simp add: ex_reprint_def)
qed

text \<open>
  C5, as amended.  \<^verbatim>\<open>search_with_recall\<close> returns the merged list as merged; it is its
  caller, app.py, that sorts the returned list in memory, with the comparator rules of
  the client-side ranker.  After that sort, under the sort key \<open>cited_by_count\<close> and the
  order \<open>desc\<close>, the sequence is non-increasing in \<open>cited_by_count\<close>, a missing value
  counting as 0.
\<close>

theorem recall_resorted_by_caller:
  "enhanced_work_items recall_data sort_param order_param
     = sort_sample sort_param order_param (recall_results recall_data)
   \<and> sorted (rev (map cited_key
        (enhanced_work_items
           (snd (search_with_recall u n keyword kg (Some ''cited_by_count'') ''desc''))
           (Some ''cited_by_count'') ''desc'')))"
proof -
  have "enhanced_work_items recall_data sort_param order_param
          = sort_sample sort_param order_param (recall_results recall_data)"
    by (cases sort_param) (auto simp: enhanced_work_items_def sort_sample_def truthy_def Let_def)
  moreover have "sorted (rev (map cited_key (enhanced_work_items rd (Some ''cited_by_count'') ''desc'')))"
    for rd
    by (simp add: enhanced_work_items_def truthy_def Let_def py_sort_descending)
  ultimately show ?thesis by blast
qed

text \<open>
  The claim as stated fails: under the sort key \<open>cited_by_count\<close> and the order \<open>desc\<close>
  the list returned by \<^verbatim>\<open>search_with_recall\<close> has the citation counts 10, 5, 50.
\<close>

theorem recall_not_resorted_counterexample:
  "map cited_key
     (recall_results
        (snd (search_with_recall ex_upstream_topics 0 ''rock'' ex_kg_rock
                (Some ''cited_by_count'') ''desc'')))
     = [10, 5, 50]"
  by code_simp

section \<open>The aggregate search\<close>

lemma search_acemap_cong:
  assumes "\<forall>ep. map_of ENDPOINTS search_type = Some ep \<longrightarrow> (\<forall>k q. url q = ep \<longrightarrow> u' k q = u k q)"
  shows "search_acemap u' n search_type keyword page sz order sort_arg
       = search_acemap u n search_type keyword page sz order sort_arg"
proof (cases "map_of ENDPOINTS search_type")
  case None
  then show ?thesis by (simp add: search_acemap_def)
next
  case (Some ep)
  with assms have same: "\<forall>k q. url q = ep \<longrightarrow> u' k q = u k q"
    by simp
  have "accumulate u' n ep st keyword target 1 [] [] None
      = accumulate u n ep st keyword target 1 [] [] None" for target st
    by (rule accumulate_cong [OF same])
  with Some same show ?thesis
    by (simp add: search_acemap_def Let_def)
qed

lemma channel_cases:
  "(\<forall>e. r = Inl e \<longrightarrow> channel r = \<lparr>results = Some [], meta_count = None, error = Some (str_exn e)\<rparr>)
   \<and> (\<forall>p. r = Inr p \<longrightarrow> channel r = p)"
  by (simp add: channel_def stand_in_def)

lemma search_all_channels:
  "work (snd (search_all u n keyword sort_arg order))
     = channel (snd (search_acemap u n ''work'' keyword 1 5 order sort_arg))
   \<and> author (snd (search_all u n keyword sort_arg order))
     = channel (snd (search_acemap u
         (n + length (fst (search_acemap u n ''work'' keyword 1 5 order sort_arg)))
         ''author'' keyword 1 3 ''desc'' None))
   \<and> institution (snd (search_all u n keyword sort_arg order))
     = channel (snd (search_acemap u
         (n + length (fst (search_acemap u n ''work'' keyword 1 5 order sort_arg))
            + length (fst (search_acemap u
                (n + length (fst (search_acemap u n ''work'' keyword 1 5 order sort_arg)))
                ''author'' keyword 1 3 ''desc'' None)))
         ''institution'' keyword 1 3 ''desc'' None))"
  by (simp add: search_all_def Let_def split_def)

text \<open>
  C9.  \<^verbatim>\<open>search_all\<close> always returns an envelope with the three channels.  Each
  channel is the dictionary that its own search returned, when that search returned,
  and the stand-in with the message of the exception and an empty result list, when
  that search raised.  Whatever the institution endpoint does, the work and the author
  channel are the same.
\<close>

theorem search_all_isolates_failures:
  fixes u :: upstream and n :: nat and keyword order :: string and sort_arg :: "string option"
  defines "W \<equiv> search_acemap u n ''work'' keyword 1 5 order sort_arg"
  defines "A \<equiv> search_acemap u (n + length (fst W)) ''author'' keyword 1 3 ''desc'' None"
  defines "I \<equiv> search_acemap u (n + length (fst W) + length (fst A)) ''institution''
                  keyword 1 3 ''desc'' None"
  defines "env \<equiv> snd (search_all u n keyword sort_arg order)"
  shows "(\<forall>e. snd W = Inl e \<longrightarrow>
            work env = \<lparr>results = Some [], meta_count = None, error = Some (str_exn e)\<rparr>)
         \<and> (\<forall>p. snd W = Inr p \<longrightarrow> work env = p)
         \<and> (\<forall>e. snd A = Inl e \<longrightarrow>
              author env = \<lparr>results = Some [], meta_count = None, error = Some (str_exn e)\<rparr>)
         \<and> (\<forall>p. snd A = Inr p \<longrightarrow> author env = p)
         \<and> (\<forall>e. snd I = Inl e \<longrightarrow>
              institution env
                = \<lparr>results = Some [], meta_count = None, error = Some (str_exn e)\<rparr>)
         \<and> (\<forall>p. snd I = Inr p \<longrightarrow> institution env = p)
         \<and> (\<forall>u'. (\<forall>k q. url q \<noteq> API_BASE @ ''/institution/search'' \<longrightarrow> u' k q = u k q) \<longrightarrow>
              work (snd (search_all u' n keyword sort_arg order)) = work env
              \<and> author (snd (search_all u' n keyword sort_arg order)) = author env)"
proof -
  have w: "work env = channel (snd W)" and a: "author env = channel (snd A)"
    and i: "institution env = channel (snd I)"
    using search_all_channels [of u n keyword sort_arg order]
    by (simp_all add: W_def A_def I_def env_def)
  have indep: "work (snd (search_all u' n keyword sort_arg order)) = work env
             \<and> author (snd (search_all u' n keyword sort_arg order)) = author env"
    if same: "\<forall>k q. url q \<noteq> API_BASE @ ''/institution/search'' \<longrightarrow> u' k q = u k q" for u'
  proof -
    have sw: "search_acemap u' m ''work'' kw p s ord srt = search_acemap u m ''work'' kw p s ord srt"
      for m kw p s ord srt
      using same by (intro search_acemap_cong) (simp add: ENDPOINTS_def API_BASE_def)
    have sa: "search_acemap u' m ''author'' kw p s ord srt = search_acemap u m ''author'' kw p s ord srt"
      for m kw p s ord srt
      using same by (intro search_acemap_cong) (simp add: ENDPOINTS_def API_BASE_def)
    show ?thesis
      using search_all_channels [of u' n keyword sort_arg order] w a
      by (simp add: sw sa W_def A_def)
  qed
  from w a i indep channel_cases [of "snd W"] channel_cases [of "snd A"]
    channel_cases [of "snd I"]
  show ?thesis by simp
qed

theorem search_all_isolates_failures_witness:
  "snd (search_acemap ex_upstream_inst_down 2 ''institution'' ''rock'' 1 3 ''desc'' None)
     = Inl (UpstreamError ''Read timed out'')
   \<and> institution (snd (search_all ex_upstream_inst_down 0 ''rock'' None ''desc''))
       = \<lparr>results = Some [], meta_count = None, error = Some ''Read timed out''\<rparr>
   \<and> work (snd (search_all ex_upstream_inst_down 0 ''rock'' None ''desc''))
       = \<lparr>results = Some [ex_dated], meta_count = Some 1, error = None\<rparr>
   \<and> author (snd (search_all ex_upstream_inst_down 0 ''rock'' None ''desc''))
       = \<lparr>results = Some [ex_dated], meta_count = Some 1, error = None\<rparr>"
proof -
  have w: "search_acemap ex_upstream_inst_down 0 ''work'' ''rock'' 1 5 ''desc'' None
      = ([\<lparr>url = ''https://acemap.info/api/v1/work/search'',
           params = [(''keyword'', PStr ''rock''), (''page'', PInt 1), (''size'', PInt 5),
                     (''order'', PStr ''desc'')]\<rparr>],
         Inr \<lparr>results = Some [ex_dated], meta_count = Some 1, error = None\<rparr>)"
    by code_simp
  have a: "search_acemap ex_upstream_inst_down 1 ''author'' ''rock'' 1 3 ''desc'' None
      = ([\<lparr>url = ''https://acemap.info/api/v1/author/search'',
           params = [(''keyword'', PStr ''rock''), (''page'', PInt 1), (''size'', PInt 3)]\<rparr>],
         Inr \<lparr>results = Some [ex_dated], meta_count = Some 1, error = None\<rparr>)"
    by code_simp
  have i: "snd (search_acemap ex_upstream_inst_down 2 ''institution'' ''rock'' 1 3 ''desc'' None)
      = Inl (UpstreamError ''Read timed out'')"
    by code_simp
  have i': "snd (search_acemap ex_upstream_inst_down (Suc (Suc 0)) ''institution'' ''rock'' 1 3
                   ''desc'' None)
      = Inl (UpstreamError ''Read timed out'')"
    using i by (simp add: numeral_2_eq_2)
  from search_all_isolates_failures [of ex_upstream_inst_down 0 "''rock''" "''desc''" None]
    w a i i'
  show ?thesis by simp
qed

end
